theory Spec2Isabelle
  imports Main "HOL-Library.Word"
begin

unbundle bit_operations_syntax

section \<open>regbus: double-buffered data register, command register and registry\<close>

text \<open>
  The development embeds the three headers of regbus as they are written:
  \<^item> \<open>include/regbus/DBReg.hpp\<close>: \<open>DBReg<T>\<close>, two slots, a stamp per slot, a global
    32-bit counter, the index of the active slot and the \<open>has_\<close> flag;
  \<^item> \<open>CmdReg.hpp\<close>: \<open>CmdReg<T>\<close>, one value and the \<open>ready_\<close> flag;
  \<^item> \<open>Registry.hpp\<close>: \<open>Registry<Key, Traits, Keys...>\<close>, one register per key in a tuple.

  Each member function is first embedded as a function of the state, run from its first
  statement to its last with nothing in between, so that an atomic load or store is a
  read or an update of a field. \<open>uint32_t\<close> is \<open>32 word\<close>, whose addition wraps as
  \<open>fetch_add\<close> does. For threads that run at the same time, \<open>DBReg::write\<close> and
  \<open>DBReg::read\<close> are then cut into their accesses to the shared register, one access
  per step, and a schedule says which thread takes each step; run alone, the steps of a
  call are proved to give what the function of the state gives.
\<close>

subsection \<open>DBReg\<close>

type_synonym u32 = "32 word"

text \<open>
  The private members of \<open>DBReg<T>\<close>. The arrays \<open>buf_[2]\<close> and \<open>seq_[2]\<close> are lists
  indexed by \<open>unat\<close> of the \<open>uint32_t\<close> index.
\<close>

record 'a DBReg =
  buf :: "'a list"
  seq :: "u32 list"
  seq_ctr :: u32
  idx :: u32
  has :: bool

text \<open>
  The constructor: \<open>buf_[2]{}\<close> value-initialises both slots (the parameter \<open>d\<close> is
  \<open>T{}\<close>), \<open>seq_ctr_{0}\<close>, \<open>idx_(0)\<close>, \<open>has_(false)\<close>, and both stamps stored as 0.
\<close>

definition DBReg_init :: "'a \<Rightarrow> 'a DBReg" where
  "DBReg_init d = \<lparr>buf = [d, d], seq = [0, 0], seq_ctr = 0, idx = 0, has = False\<rparr>"

text \<open>\<open>DBReg::write\<close>, statement by statement.\<close>

definition DBReg_write :: "'a \<Rightarrow> 'a DBReg \<Rightarrow> 'a DBReg" where
  "DBReg_write v r =
     (let cur = idx r;
          nxt = cur XOR 1;
          r1 = r\<lparr>buf := (buf r)[unat nxt := v]\<rparr>;
          s = seq_ctr r1 + 1;
          r2 = r1\<lparr>seq_ctr := seq_ctr r1 + 1\<rparr>;
          r3 = r2\<lparr>seq := (seq r2)[unat nxt := s]\<rparr>;
          r4 = r3\<lparr>idx := nxt\<rparr>
      in r4\<lparr>has := True\<rparr>)"

text \<open>
  The retry loop \<open>for (;;)\<close> of \<open>DBReg::read\<close>. It has no bound in the source, so a run
  that never leaves it is the value \<open>None\<close>; a run that leaves it returns the copy
  \<open>tmp\<close> and the stamp \<open>s1\<close>.
\<close>

partial_function (option) read_loop :: "'a DBReg \<Rightarrow> ('a \<times> u32) option" where
  "read_loop r =
     (let i1 = idx r;
          s1 = seq r ! unat i1;
          tmp = buf r ! unat i1;
          i2 = idx r
      in if i1 = i2 \<and> s1 = seq r ! unat i1 then Some (tmp, s1) else read_loop r)"

text \<open>
  \<open>DBReg::read(out, out_seq)\<close>. The arguments are the contents of \<open>out\<close> before the
  call and of \<open>*out_seq\<close> (\<open>None\<close> for the default \<open>nullptr\<close>); the result is the
  returned \<open>bool\<close> with the contents of both afterwards. The function is \<open>const\<close>:
  the register is not changed.
\<close>

definition DBReg_read :: "'a DBReg \<Rightarrow> 'a \<Rightarrow> u32 option \<Rightarrow> (bool \<times> 'a \<times> u32 option) option" where
  "DBReg_read r out out_seq =
     (if \<not> has r then Some (False, out, out_seq)
      else case read_loop r of
             None \<Rightarrow> None
           | Some (tmp, s1) \<Rightarrow>
               Some (True, tmp, case out_seq of None \<Rightarrow> None | Some _ \<Rightarrow> Some s1))"

definition DBReg_has :: "'a DBReg \<Rightarrow> bool" where
  "DBReg_has r = has r"

text \<open>
  What the constructor establishes and \<open>write\<close> keeps: both arrays have their two
  cells and the index names one of them.
\<close>

definition DBReg_inv :: "'a DBReg \<Rightarrow> bool" where
  "DBReg_inv r = (length (buf r) = 2 \<and> length (seq r) = 2 \<and> (idx r = 0 \<or> idx r = 1))"

subsection \<open>CmdReg\<close>

record 'a CmdReg =
  val :: 'a
  ready :: bool

text \<open>\<open>T val_{}\<close> and \<open>ready_{false}\<close>; \<open>d\<close> is \<open>T{}\<close>.\<close>

definition CmdReg_init :: "'a \<Rightarrow> 'a CmdReg" where
  "CmdReg_init d = \<lparr>val = d, ready = False\<rparr>"

definition post :: "'a \<Rightarrow> 'a CmdReg \<Rightarrow> 'a CmdReg" where
  "post v c = (c\<lparr>val := v\<rparr>)\<lparr>ready := True\<rparr>"

text \<open>
  \<open>CmdReg::consume(out)\<close>: the returned \<open>bool\<close>, the contents of \<open>out\<close> afterwards and
  the register afterwards.
\<close>

definition consume :: "'a CmdReg \<Rightarrow> 'a \<Rightarrow> bool \<times> 'a \<times> 'a CmdReg" where
  "consume c out =
     (if \<not> ready c then (False, out, c)
      else (True, val c, c\<lparr>ready := False\<rparr>))"

definition pending :: "'a CmdReg \<Rightarrow> bool" where
  "pending c = ready c"

subsection \<open>Registry\<close>

datatype Kind = Data | Cmd

text \<open>
  \<open>detail::index_of<Key, K, Keys...>\<close>: 0 when the head of the pack is \<open>K\<close>, one more
  than the index in the tail otherwise, and a failed \<open>static_assert\<close> on the empty pack
  (\<open>None\<close>: the program is rejected by the compiler).
\<close>

fun index_of :: "'k \<Rightarrow> 'k list \<Rightarrow> nat option" where
  "index_of k (h # t) = (if h = k then Some 0 else map_option Suc (index_of k t))"
| "index_of k [] = None"

text \<open>
  \<open>detail::storage_for<Key, Traits, K>::type\<close> is \<open>CmdReg<T>\<close> when \<open>Traits<K>::kind\<close>
  is \<open>Kind::Cmd\<close> and \<open>DBReg<T>\<close> otherwise. A member of the tuple \<open>storage_\<close> is a
  register of one of the two types; all payload types are read into the one type \<open>'a\<close>.
\<close>

datatype 'a storage = DBRegS "'a DBReg" | CmdRegS "'a CmdReg"

text \<open>
  The default-constructed member for key \<open>k\<close>: \<open>traits\<close> is \<open>Traits<K>::kind\<close> and
  \<open>dflt k\<close> is the value-initialised \<open>Traits<K>::type\<close>.
\<close>

definition storage_for :: "('k \<Rightarrow> Kind) \<Rightarrow> ('k \<Rightarrow> 'a) \<Rightarrow> 'k \<Rightarrow> 'a storage" where
  "storage_for traits dflt k =
     (if traits k = Cmd then CmdRegS (CmdReg_init (dflt k)) else DBRegS (DBReg_init (dflt k)))"

text \<open>\<open>std::tuple<storage_t<Keys>...> storage_\<close>, default-constructed: one member per key.\<close>

definition Registry_init :: "('k \<Rightarrow> Kind) \<Rightarrow> ('k \<Rightarrow> 'a) \<Rightarrow> 'k list \<Rightarrow> 'a storage list" where
  "Registry_init traits dflt keys = map (storage_for traits dflt) keys"

text \<open>
  \<open>get<K>()\<close> and \<open>cget<K>()\<close>: \<open>std::get<idx<K>()>(storage_)\<close>. The template
  parameters \<open>Traits\<close> and \<open>Keys...\<close> are the arguments \<open>traits\<close> and \<open>keys\<close> of every
  operation, and \<open>None\<close> is a call that does not compile: a key that is not in the
  list, or an operation that \<open>enable_if\<close> removes for the key's kind.
\<close>

definition get :: "'k list \<Rightarrow> 'k \<Rightarrow> 'a storage list \<Rightarrow> 'a storage option" where
  "get keys k st = (case index_of k keys of None \<Rightarrow> None | Some i \<Rightarrow> Some (st ! i))"

definition Registry_write ::
  "('k \<Rightarrow> Kind) \<Rightarrow> 'k list \<Rightarrow> 'k \<Rightarrow> 'a \<Rightarrow> 'a storage list \<Rightarrow> 'a storage list option" where
  "Registry_write traits keys k v st =
     (if traits k \<noteq> Data then None
      else case index_of k keys of
             None \<Rightarrow> None
           | Some i \<Rightarrow>
               (case st ! i of
                  DBRegS r \<Rightarrow> Some (st[i := DBRegS (DBReg_write v r)])
                | CmdRegS c \<Rightarrow> None))"

definition Registry_read ::
  "('k \<Rightarrow> Kind) \<Rightarrow> 'k list \<Rightarrow> 'k \<Rightarrow> 'a storage list \<Rightarrow> 'a \<Rightarrow> u32 option
     \<Rightarrow> (bool \<times> 'a \<times> u32 option) option option" where
  "Registry_read traits keys k st out sq =
     (if traits k \<noteq> Data then None
      else case get keys k st of
             Some (DBRegS r) \<Rightarrow> Some (DBReg_read r out sq)
           | _ \<Rightarrow> None)"

definition Registry_has :: "('k \<Rightarrow> Kind) \<Rightarrow> 'k list \<Rightarrow> 'k \<Rightarrow> 'a storage list \<Rightarrow> bool option" where
  "Registry_has traits keys k st =
     (if traits k \<noteq> Data then None
      else case get keys k st of
             Some (DBRegS r) \<Rightarrow> Some (DBReg_has r)
           | _ \<Rightarrow> None)"

definition Registry_post ::
  "('k \<Rightarrow> Kind) \<Rightarrow> 'k list \<Rightarrow> 'k \<Rightarrow> 'a \<Rightarrow> 'a storage list \<Rightarrow> 'a storage list option" where
  "Registry_post traits keys k v st =
     (if traits k \<noteq> Cmd then None
      else case index_of k keys of
             None \<Rightarrow> None
           | Some i \<Rightarrow>
               (case st ! i of
                  CmdRegS c \<Rightarrow> Some (st[i := CmdRegS (post v c)])
                | DBRegS r \<Rightarrow> None))"

definition Registry_consume ::
  "('k \<Rightarrow> Kind) \<Rightarrow> 'k list \<Rightarrow> 'k \<Rightarrow> 'a \<Rightarrow> 'a storage list
     \<Rightarrow> (bool \<times> 'a \<times> 'a storage list) option" where
  "Registry_consume traits keys k out st =
     (if traits k \<noteq> Cmd then None
      else case index_of k keys of
             None \<Rightarrow> None
           | Some i \<Rightarrow>
               (case st ! i of
                  CmdRegS c \<Rightarrow>
                    (case consume c out of
                       (b, out', c') \<Rightarrow> Some (b, out', st[i := CmdRegS c']))
                | DBRegS r \<Rightarrow> None))"

text \<open>
  The tuple has one member per key, of the type \<open>storage_for\<close> selects for the key.
  The C++ type of \<open>storage_\<close> makes this hold of every registry.
\<close>

definition Registry_wf :: "('k \<Rightarrow> Kind) \<Rightarrow> 'k list \<Rightarrow> 'a storage list \<Rightarrow> bool" where
  "Registry_wf traits keys st =
     list_all2 (\<lambda>k s. case s of DBRegS r \<Rightarrow> traits k = Data | CmdRegS c \<Rightarrow> traits k = Cmd)
       keys st"

text \<open>
  Everything the calls on key \<open>k\<close> return in the registry \<open>st\<close>: the result of \<open>read\<close>
  (with the contents of \<open>out\<close> and \<open>*seq\<close>), of \<open>has\<close>, and the \<open>bool\<close> and \<open>out\<close> of
  \<open>consume\<close>.
\<close>

definition Registry_view ::
  "('k \<Rightarrow> Kind) \<Rightarrow> 'k list \<Rightarrow> 'k \<Rightarrow> 'a \<Rightarrow> u32 option \<Rightarrow> 'a storage list
     \<Rightarrow> (bool \<times> 'a \<times> u32 option) option option \<times> bool option \<times> (bool \<times> 'a) option" where
  "Registry_view traits keys k out sq st =
     (Registry_read traits keys k st out sq,
      Registry_has traits keys k st,
      map_option (\<lambda>(b, out', st'). (b, out')) (Registry_consume traits keys k out st))"

text \<open>
  The registry of the tests: \<open>enum class K { A, B, CMD_GO }\<close>, its \<open>Traits\<close>
  specialisations (the kinds) and \<open>R = Registry<K, Traits, K::A, K::B, K::CMD_GO>\<close>.
  Payloads are read as integers, value-initialised to 0.
\<close>

datatype K = A | B | CMD_GO

fun Traits :: "K \<Rightarrow> Kind" where
  "Traits A = Data"
| "Traits B = Data"
| "Traits CMD_GO = Cmd"

definition R_keys :: "K list" where
  "R_keys = [A, B, CMD_GO]"

definition R_zero :: "K \<Rightarrow> int" where
  "R_zero k = 0"

definition R_init :: "int storage list" where
  "R_init = Registry_init Traits R_zero R_keys"

text \<open>
  The registry \<open>R\<close> after \<open>write<K::A>(123)\<close>, \<open>write<K::B>(5)\<close> and
  \<open>post<K::CMD_GO>(1)\<close>.
\<close>

definition R_used :: "int storage list" where
  "R_used =
     [DBRegS (DBReg_write 123 (DBReg_init 0)),
      DBRegS (DBReg_write 5 (DBReg_init 0)),
      CmdRegS (post 1 (CmdReg_init 0))]"

text \<open>A sequential run of writes, first element of the list first.\<close>

definition DBReg_writes :: "'a list \<Rightarrow> 'a DBReg \<Rightarrow> 'a DBReg" where
  "DBReg_writes vs r = fold DBReg_write vs r"

subsection \<open>Threads: one memory access per step\<close>

text \<open>
  The payload of the contention tests, \<open>struct S { uint32_t a; uint32_t b; }\<close>, and
  the correlation they write and check: \<open>b == ~a\<close>.
\<close>

record S =
  S_a :: u32
  S_b :: u32

definition coherent :: "S \<Rightarrow> bool" where
  "coherent x = (S_b x = NOT (S_a x))"

text \<open>
  A thread inside \<open>DBReg<S>::write\<close>. The position names the next access to the shared
  register and carries the locals that are live there (\<open>nxt\<close>, and \<open>s\<close> once it is
  computed). The copy \<open>buf_[nxt] = v\<close> is not atomic: it is the copy of field \<open>a\<close>
  followed by the copy of field \<open>b\<close>.
\<close>

datatype wpc =
    W_load_idx
  | W_copy_a u32
  | W_copy_b u32
  | W_fetch_add u32
  | W_store_seq u32 u32
  | W_store_idx u32
  | W_store_has

text \<open>
  A writer thread calls \<open>write\<close> on each value of \<open>w_todo\<close> in turn, as the writer of
  the tests does in its loop; the head of the list is the argument \<open>v\<close> of the call in
  progress. With nothing left to write the thread has finished and its steps do nothing.
\<close>

record writer =
  w_pc :: wpc
  w_todo :: "S list"

definition writer_step :: "writer \<Rightarrow> S DBReg \<Rightarrow> writer \<times> S DBReg" where
  "writer_step w r =
     (case w_todo w of
        [] \<Rightarrow> (w, r)
      | v # vs \<Rightarrow>
          (case w_pc w of
             W_load_idx \<Rightarrow> (w\<lparr>w_pc := W_copy_a (idx r XOR 1)\<rparr>, r)
           | W_copy_a nxt \<Rightarrow>
               (w\<lparr>w_pc := W_copy_b nxt\<rparr>,
                r\<lparr>buf := (buf r)[unat nxt := (buf r ! unat nxt)\<lparr>S_a := S_a v\<rparr>]\<rparr>)
           | W_copy_b nxt \<Rightarrow>
               (w\<lparr>w_pc := W_fetch_add nxt\<rparr>,
                r\<lparr>buf := (buf r)[unat nxt := (buf r ! unat nxt)\<lparr>S_b := S_b v\<rparr>]\<rparr>)
           | W_fetch_add nxt \<Rightarrow>
               (w\<lparr>w_pc := W_store_seq nxt (seq_ctr r + 1)\<rparr>, r\<lparr>seq_ctr := seq_ctr r + 1\<rparr>)
           | W_store_seq nxt s \<Rightarrow>
               (w\<lparr>w_pc := W_store_idx nxt\<rparr>, r\<lparr>seq := (seq r)[unat nxt := s]\<rparr>)
           | W_store_idx nxt \<Rightarrow> (w\<lparr>w_pc := W_store_has\<rparr>, r\<lparr>idx := nxt\<rparr>)
           | W_store_has \<Rightarrow> (w\<lparr>w_pc := W_load_idx, w_todo := vs\<rparr>, r\<lparr>has := True\<rparr>)))"

text \<open>
  A thread inside \<open>DBReg<S>::read\<close>, with the locals \<open>i1\<close>, \<open>s1\<close>, \<open>tmp\<close> (first its
  field \<open>a\<close> alone, then the whole copy) and \<open>i2\<close>.
\<close>

datatype rpc =
    R_load_has
  | R_load_i1
  | R_load_s1 u32
  | R_copy_a u32 u32
  | R_copy_b u32 u32 u32
  | R_load_i2 u32 u32 S
  | R_check u32 u32 S u32

text \<open>
  The reader thread of the tests calls \<open>read(s, &seq)\<close> again and again, each time on
  \<open>S s{}\<close> and \<open>seq = 0\<close>. \<open>r_log\<close> holds what each finished call returned with the
  contents of \<open>s\<close> and \<open>seq\<close> after it, the latest call first.
\<close>

record reader =
  r_pc :: rpc
  r_log :: "(bool \<times> S \<times> u32) list"

definition reader_step :: "reader \<Rightarrow> S DBReg \<Rightarrow> reader" where
  "reader_step rd r =
     (case r_pc rd of
        R_load_has \<Rightarrow>
          (if \<not> has r then rd\<lparr>r_log := (False, \<lparr>S_a = 0, S_b = 0\<rparr>, 0) # r_log rd\<rparr>
           else rd\<lparr>r_pc := R_load_i1\<rparr>)
      | R_load_i1 \<Rightarrow> rd\<lparr>r_pc := R_load_s1 (idx r)\<rparr>
      | R_load_s1 i1 \<Rightarrow> rd\<lparr>r_pc := R_copy_a i1 (seq r ! unat i1)\<rparr>
      | R_copy_a i1 s1 \<Rightarrow> rd\<lparr>r_pc := R_copy_b i1 s1 (S_a (buf r ! unat i1))\<rparr>
      | R_copy_b i1 s1 a1 \<Rightarrow>
          rd\<lparr>r_pc := R_load_i2 i1 s1 \<lparr>S_a = a1, S_b = S_b (buf r ! unat i1)\<rparr>\<rparr>
      | R_load_i2 i1 s1 tmp \<Rightarrow> rd\<lparr>r_pc := R_check i1 s1 tmp (idx r)\<rparr>
      | R_check i1 s1 tmp i2 \<Rightarrow>
          (if i1 = i2 \<and> s1 = seq r ! unat i1
           then rd\<lparr>r_pc := R_load_has, r_log := (True, tmp, s1) # r_log rd\<rparr>
           else rd\<lparr>r_pc := R_load_i1\<rparr>))"

text \<open>
  One register shared by any number of writer threads and one reader thread. A schedule
  is the list of the threads that take the successive steps.
\<close>

record sys =
  reg :: "S DBReg"
  writers :: "writer list"
  rd :: reader

datatype tid = Writer nat | Reader

definition step :: "tid \<Rightarrow> sys \<Rightarrow> sys" where
  "step t s =
     (case t of
        Writer i \<Rightarrow>
          (if i < length (writers s)
           then (case writer_step (writers s ! i) (reg s) of
                   (w', r') \<Rightarrow> s\<lparr>reg := r', writers := (writers s)[i := w']\<rparr>)
           else s)
      | Reader \<Rightarrow> s\<lparr>rd := reader_step (rd s) (reg s)\<rparr>)"

definition run :: "tid list \<Rightarrow> sys \<Rightarrow> sys" where
  "run sched s = fold step sched s"

text \<open>
  A fresh \<open>DBReg<S>\<close>, one writer thread per list of values, and the reader about to
  make its first call.
\<close>

definition sys_init :: "S list list \<Rightarrow> sys" where
  "sys_init vss =
     \<lparr>reg = DBReg_init \<lparr>S_a = 0, S_b = 0\<rparr>,
      writers = map (\<lambda>vs. \<lparr>w_pc = W_load_idx, w_todo = vs\<rparr>) vss,
      rd = \<lparr>r_pc = R_load_has, r_log = []\<rparr>\<rparr>"

section \<open>Properties of DBReg\<close>

lemma read_loop_returns: "read_loop r = Some (buf r ! unat (idx r), seq r ! unat (idx r))"
  by (subst read_loop.simps) (simp add: Let_def)

lemma DBReg_read_eq:
  "DBReg_read r out os =
     (if has r then Some (True, buf r ! unat (idx r), map_option (\<lambda>_. seq r ! unat (idx r)) os)
      else Some (False, out, os))"
  by (cases os) (simp_all add: DBReg_read_def read_loop_returns)

lemma DBReg_inv_init: "DBReg_inv (DBReg_init d)"
  by (simp add: DBReg_inv_def DBReg_init_def)

lemma DBReg_inv_write: "DBReg_inv r \<Longrightarrow> DBReg_inv (DBReg_write v r)"
  by (auto simp: DBReg_inv_def DBReg_write_def Let_def)

lemma write_seq_ctr: "seq_ctr (DBReg_write v r) = seq_ctr r + 1"
  by (simp add: DBReg_write_def Let_def)

lemma write_idx: "idx (DBReg_write v r) = idx r XOR 1"
  by (simp add: DBReg_write_def Let_def)

lemma write_has: "has (DBReg_write v r)"
  by (simp add: DBReg_write_def Let_def)

lemma write_buf: "buf (DBReg_write v r) = (buf r)[unat (idx r XOR 1) := v]"
  by (simp add: DBReg_write_def Let_def)

lemma write_seq: "seq (DBReg_write v r) = (seq r)[unat (idx r XOR 1) := seq_ctr r + 1]"
  by (simp add: DBReg_write_def Let_def)

lemma write_active_value:
  "DBReg_inv r \<Longrightarrow> buf (DBReg_write v r) ! unat (idx (DBReg_write v r)) = v"
  by (auto simp: DBReg_inv_def write_buf write_idx)

lemma write_active_stamp:
  "DBReg_inv r \<Longrightarrow> seq (DBReg_write v r) ! unat (idx (DBReg_write v r)) = seq_ctr r + 1"
  by (auto simp: DBReg_inv_def write_seq write_idx)

lemma writes_snoc: "DBReg_writes (vs @ [v]) r = DBReg_write v (DBReg_writes vs r)"
  by (simp add: DBReg_writes_def)

lemma writes_append: "DBReg_writes (vs @ ws) r = DBReg_writes ws (DBReg_writes vs r)"
  by (simp add: DBReg_writes_def)

lemma DBReg_inv_writes: "DBReg_inv r \<Longrightarrow> DBReg_inv (DBReg_writes vs r)"
  by (induction vs rule: rev_induct) (simp_all add: DBReg_writes_def DBReg_inv_write)

lemma writes_seq_ctr: "seq_ctr (DBReg_writes vs r) = seq_ctr r + of_nat (length vs)"
  by (induction vs rule: rev_induct) (simp_all add: DBReg_writes_def write_seq_ctr)

lemma writes_has: "has (DBReg_writes vs r) = (has r \<or> vs \<noteq> [])"
  by (induction vs rule: rev_induct) (simp_all add: DBReg_writes_def write_has)

lemma writes_idx:
  "idx (DBReg_writes vs r) = (if even (length vs) then idx r else idx r XOR 1)"
  by (induction vs rule: rev_induct) (simp_all add: writes_snoc DBReg_writes_def write_idx xor.assoc)

lemma writes_active_value:
  "DBReg_inv r \<Longrightarrow> vs \<noteq> [] \<Longrightarrow>
   buf (DBReg_writes vs r) ! unat (idx (DBReg_writes vs r)) = last vs"
  by (cases vs rule: rev_cases)
     (simp_all add: writes_snoc write_active_value DBReg_inv_writes)

lemma writes_active_stamp:
  "DBReg_inv r \<Longrightarrow> vs \<noteq> [] \<Longrightarrow>
   seq (DBReg_writes vs r) ! unat (idx (DBReg_writes vs r)) = seq_ctr r + of_nat (length vs)"
  by (cases vs rule: rev_cases)
     (simp_all add: writes_snoc write_active_stamp DBReg_inv_writes writes_seq_ctr)

lemma init_fields:
  "seq_ctr (DBReg_init d) = 0" "idx (DBReg_init d) = 0" "has (DBReg_init d) = False"
  by (simp_all add: DBReg_init_def)

lemma read_after_writes:
  "vs \<noteq> [] \<Longrightarrow>
   DBReg_read (DBReg_writes vs (DBReg_init d)) out os =
     Some (True, last vs, map_option (\<lambda>_. of_nat (length vs)) os)"
  by (simp add: DBReg_read_eq writes_has writes_active_value writes_active_stamp
        DBReg_inv_init init_fields)

text \<open>
  C1. For every value \<open>v\<close>, \<open>write(v)\<close> followed by \<open>read(out)\<close> with no write in
  between returns true and leaves in \<open>out\<close> a value equal to \<open>v\<close> (and in \<open>*out_seq\<close>,
  when it is given, the stamp of that write); \<open>has()\<close> is true afterwards. The register
  is any one whose arrays have their two cells and whose index is 0 or 1.
\<close>

theorem write_read_round_trip:
  "DBReg_inv r \<Longrightarrow>
   DBReg_read (DBReg_write v r) out os =
     Some (True, v, map_option (\<lambda>_. seq_ctr r + 1) os)
   \<and> DBReg_has (DBReg_write v r)"
  by (simp add: DBReg_read_eq DBReg_has_def write_has write_active_value write_active_stamp)

theorem write_read_round_trip_witness:
  "DBReg_inv (DBReg_init (0::nat))
   \<and> DBReg_read (DBReg_write 42 (DBReg_init (0::nat))) 7 (Some 0) = Some (True, 42, Some 1)
   \<and> DBReg_has (DBReg_write 42 (DBReg_init (0::nat)))"
  using write_read_round_trip [OF DBReg_inv_init, of 42 "0::nat" 7 "Some 0"]
  by (simp add: DBReg_inv_init init_fields)

text \<open>
  C4. For every register state and every \<open>v\<close>, \<open>write(v)\<close> copies \<open>v\<close> into the slot
  that was inactive (\<open>idx XOR 1\<close>, different from the active one), stamps that slot with
  the incremented counter, makes it the active slot and sets \<open>has_\<close>; the slot that was
  active keeps its contents and its stamp. \<open>DBReg_write\<close> is a total function with no
  error result: there is no failing branch.
\<close>

theorem write_fills_inactive_slot:
  "DBReg_inv r \<Longrightarrow>
   idx r XOR 1 \<noteq> idx r
   \<and> buf (DBReg_write v r) ! unat (idx r XOR 1) = v
   \<and> seq_ctr (DBReg_write v r) = seq_ctr r + 1
   \<and> seq (DBReg_write v r) ! unat (idx r XOR 1) = seq_ctr r + 1
   \<and> idx (DBReg_write v r) = idx r XOR 1
   \<and> has (DBReg_write v r)
   \<and> buf (DBReg_write v r) ! unat (idx r) = buf r ! unat (idx r)
   \<and> seq (DBReg_write v r) ! unat (idx r) = seq r ! unat (idx r)
   \<and> DBReg_inv (DBReg_write v r)"
proof -
  assume inv: "DBReg_inv r"
  then have cases: "idx r = 0 \<or> idx r = 1"
    and lens: "length (buf r) = 2" "length (seq r) = 2"
    by (simp_all add: DBReg_inv_def)
  from cases have ne: "idx r XOR 1 \<noteq> idx r" by auto
  from cases have ne': "unat (idx r XOR 1) \<noteq> unat (idx r)" by auto
  from cases have lt: "unat (idx r XOR 1) < 2" by auto
  have b: "buf (DBReg_write v r) ! unat (idx r XOR 1) = v"
    using lt lens by (simp add: write_buf)
  have s: "seq (DBReg_write v r) ! unat (idx r XOR 1) = seq_ctr r + 1"
    using lt lens by (simp add: write_seq)
  have b': "buf (DBReg_write v r) ! unat (idx r) = buf r ! unat (idx r)"
    using ne' by (simp add: write_buf)
  have s': "seq (DBReg_write v r) ! unat (idx r) = seq r ! unat (idx r)"
    using ne' by (simp add: write_seq)
  show ?thesis
    using ne b s b' s' inv by (simp add: write_seq_ctr write_idx write_has DBReg_inv_write)
qed

theorem write_fills_inactive_slot_witness:
  "DBReg_inv (DBReg_write (5::nat) (DBReg_init 0))
   \<and> DBReg_write (9::nat) (DBReg_write 5 (DBReg_init 0)) =
       \<lparr>buf = [9, 5], seq = [2, 1], seq_ctr = 2, idx = 0, has = True\<rparr>
   \<and> DBReg_write (5::nat) (DBReg_init 0) =
       \<lparr>buf = [0, 5], seq = [0, 1], seq_ctr = 1, idx = 1, has = True\<rparr>
   \<and> buf (DBReg_write (9::nat) (DBReg_write 5 (DBReg_init 0))) ! unat (1::u32) = 5"
  using write_fills_inactive_slot [of "DBReg_write (5::nat) (DBReg_init 0)" 9]
  by (simp add: DBReg_inv_def DBReg_write_def DBReg_init_def Let_def)

text \<open>
  C3. On a freshly constructed register \<open>read\<close> returns false (and leaves \<open>out\<close> and
  \<open>*out_seq\<close> alone) and \<open>consume\<close> returns false. After any sequential run of writes
  \<open>vs\<close> on a fresh \<open>DBReg\<close>, \<open>read\<close> returns, and it returns true exactly when \<open>vs\<close> is
  not empty; \<open>has()\<close> is true exactly when \<open>vs\<close> is not empty.
\<close>

theorem read_false_iff_never_written:
  "DBReg_read (DBReg_init d) out os = Some (False, out, os)
   \<and> consume (CmdReg_init e) cout = (False, cout, CmdReg_init e)
   \<and> map_option fst (DBReg_read (DBReg_writes vs (DBReg_init d)) out os) = Some (vs \<noteq> [])
   \<and> DBReg_has (DBReg_writes vs (DBReg_init d)) = (vs \<noteq> [])"
  by (simp add: DBReg_read_eq DBReg_has_def writes_has init_fields consume_def CmdReg_init_def)

subsection \<open>The 32-bit sequence counter\<close>

lemma u32_of_nat_le:
  assumes "a \<le> b" and "b < 2 ^ 32"
  shows "(of_nat a :: u32) \<le> of_nat b"
proof -
  from assms have "a < 2 ^ 32" by simp
  with assms show ?thesis
    by (simp add: word_le_nat_alt unat_of_nat)
qed

lemma u32_of_nat_pos:
  assumes "0 < n" and "n < 2 ^ 32"
  shows "0 < (of_nat n :: u32)"
  using assms by (simp add: word_less_nat_alt unat_of_nat)

lemma u32_inc_less: "(x::u32) \<noteq> - 1 \<Longrightarrow> x < x + 1"
  by (metis inc_less_eq_triv_imp linorder_less_linear word_le_less_eq)

text \<open>
  C10. The counter starts at 0. The \<open>n\<close>-th write of a sequential run from a fresh
  register (\<open>n = length vs + 1\<close>, the write of \<open>v\<close> after the writes \<open>vs\<close>) stamps
  \<open>n mod 2^32\<close> into the slot it fills, which is the slot that was inactive; a read after
  exactly these \<open>n\<close> writes returns true with the value \<open>v\<close> and that stamp. The stamp is
  strictly positive while \<open>n < 2^32\<close>, and the counter is 0 again after the
  \<open>2^32\<close>-th write.
\<close>

theorem nth_write_stamps_n_mod_2_32:
  "seq_ctr (DBReg_init d) = 0
   \<and> seq (DBReg_writes (vs @ [v]) (DBReg_init d))
         ! unat (idx (DBReg_writes vs (DBReg_init d)) XOR 1) = of_nat (length vs + 1)
   \<and> unat (seq (DBReg_writes (vs @ [v]) (DBReg_init d))
         ! unat (idx (DBReg_writes vs (DBReg_init d)) XOR 1)) = (length vs + 1) mod 2 ^ 32
   \<and> DBReg_read (DBReg_writes (vs @ [v]) (DBReg_init d)) out (Some q) =
        Some (True, v, Some (of_nat (length vs + 1)))
   \<and> (length vs + 1 < 2 ^ 32 \<longrightarrow>
        0 < seq (DBReg_writes (vs @ [v]) (DBReg_init d))
              ! unat (idx (DBReg_writes vs (DBReg_init d)) XOR 1))
   \<and> (length vs + 1 = 2 ^ 32 \<longrightarrow> seq_ctr (DBReg_writes (vs @ [v]) (DBReg_init d)) = 0)"
proof -
  let ?r = "DBReg_writes vs (DBReg_init d)"
  let ?r' = "DBReg_writes (vs @ [v]) (DBReg_init d)"
  have inv: "DBReg_inv ?r"
    by (simp add: DBReg_inv_writes DBReg_inv_init)
  have ctr: "seq_ctr ?r = of_nat (length vs)"
    by (simp add: writes_seq_ctr init_fields)
  have stamp: "seq ?r' ! unat (idx ?r XOR 1) = of_nat (length vs + 1)"
    using write_active_stamp [OF inv, of v] ctr
    by (simp add: writes_snoc write_idx)
  have stamp_nat: "unat (seq ?r' ! unat (idx ?r XOR 1)) = (length vs + 1) mod 2 ^ 32"
    by (simp only: stamp unat_of_nat) simp
  have rd: "DBReg_read ?r' out (Some q) = Some (True, v, Some (of_nat (length vs + 1)))"
    using read_after_writes [of "vs @ [v]" d out "Some q"] by simp
  have pos: "length vs + 1 < 2 ^ 32 \<longrightarrow> 0 < seq ?r' ! unat (idx ?r XOR 1)"
    unfolding stamp using u32_of_nat_pos [of "length vs + 1"] by simp
  have wrap: "length vs + 1 = 2 ^ 32 \<longrightarrow> seq_ctr ?r' = 0"
  proof
    assume n: "length vs + 1 = 2 ^ 32"
    have "seq_ctr ?r' = of_nat (length vs + 1)"
      by (simp add: writes_seq_ctr init_fields)
    also have "\<dots> = (of_nat (2 ^ 32) :: u32)"
      by (simp only: n)
    also have "\<dots> = 0"
      by simp
    finally show "seq_ctr ?r' = 0" .
  qed
  show ?thesis
    using stamp stamp_nat rd pos wrap by (simp add: init_fields)
qed

theorem nth_write_stamps_n_mod_2_32_witness:
  "DBReg_read (DBReg_writes ([] @ [7::nat]) (DBReg_init 0)) 0 (Some 0) = Some (True, 7, Some 1)
   \<and> (0::u32) < seq (DBReg_writes ([] @ [7::nat]) (DBReg_init 0)) ! 1
   \<and> length (replicate 4294967295 (0::nat)) + 1 = 2 ^ 32
   \<and> seq_ctr (DBReg_writes (replicate 4294967295 (0::nat) @ [0]) (DBReg_init 0)) = 0"
  using nth_write_stamps_n_mod_2_32 [of "0::nat" "[]" 7 0 0]
    nth_write_stamps_n_mod_2_32 [of "0::nat" "replicate 4294967295 0" 0 0 0]
  by (simp add: DBReg_writes_def DBReg_init_def)

text \<open>
  C6. The claim: the counter increases with every write, and from one successful read to
  the next by the same thread the sequence number returned never decreases; the tests
  assert it (\<open>ASSERT_GE(seq, last_seq)\<close>, "Sequence should never go backwards"). The
  code breaks it at the wrap of the 32-bit counter, which \<open>write\<close> advances with no
  check: after \<open>2^32 - 1\<close> writes on a fresh register a read returns the sequence
  number \<open>4294967295\<close>; one more write, and the next read returns 0, and the counter
  itself has gone from \<open>4294967295\<close> to 0.
\<close>

theorem sequence_decreases_at_wrap:
  "DBReg_read (DBReg_writes (replicate 4294967295 (0::nat)) (DBReg_init 0)) 0 (Some 0)
     = Some (True, 0, Some 4294967295)
   \<and> DBReg_read (DBReg_write 0 (DBReg_writes (replicate 4294967295 (0::nat)) (DBReg_init 0)))
         0 (Some 0)
     = Some (True, 0, Some 0)
   \<and> (0::u32) < 4294967295
   \<and> seq_ctr (DBReg_write 0 (DBReg_writes (replicate 4294967295 (0::nat)) (DBReg_init 0)))
       < seq_ctr (DBReg_writes (replicate 4294967295 (0::nat)) (DBReg_init 0))"
proof -
  let ?vs = "replicate 4294967295 (0::nat)"
  let ?r = "DBReg_writes ?vs (DBReg_init 0)"
  have ne: "?vs \<noteq> []"
    by simp
  have r1: "DBReg_read ?r 0 (Some 0) = Some (True, last ?vs, Some (of_nat (length ?vs)))"
    using read_after_writes [OF ne, of 0 0 "Some 0"] by simp
  have l: "last ?vs = 0"
    using ne by (simp only: last_replicate)
  have ctr: "seq_ctr ?r = 4294967295"
    by (simp add: writes_seq_ctr init_fields)
  have inv: "DBReg_inv ?r"
    by (rule DBReg_inv_writes [OF DBReg_inv_init])
  have r2: "DBReg_read (DBReg_write 0 ?r) 0 (Some 0) = Some (True, 0, Some 0)"
    by (simp add: DBReg_read_eq write_has write_active_value [OF inv]
          write_active_stamp [OF inv] ctr)
  have ctr2: "seq_ctr (DBReg_write 0 ?r) = 0"
    by (simp add: write_seq_ctr ctr)
  from r1 l have r1': "DBReg_read ?r 0 (Some 0) = Some (True, 0, Some 4294967295)"
    by simp
  show ?thesis
    by (simp only: r1' r2 ctr ctr2) simp
qed

text \<open>
  Away from the wrap the sequence numbers of a single thread's writes and reads do go
  up: a write strictly increases the counter unless it stands at \<open>2^32 - 1\<close>, and when
  one thread makes the writes \<open>vs\<close>, reads, makes the writes \<open>ws\<close> and reads again, the
  second sequence number is not lower than the first as long as fewer than \<open>2^32\<close>
  writes have been made in all.
\<close>

lemma sequence_monotone_below_wrap:
  "seq_ctr (DBReg_write v r) = seq_ctr r + 1
   \<and> (seq_ctr r \<noteq> - 1 \<longrightarrow> seq_ctr r < seq_ctr (DBReg_write v r))
   \<and> (vs \<noteq> [] \<and> length vs + length ws < 2 ^ 32 \<longrightarrow>
        DBReg_read (DBReg_writes vs (DBReg_init d)) out (Some q)
          = Some (True, last vs, Some (of_nat (length vs)))
        \<and> DBReg_read (DBReg_writes (vs @ ws) (DBReg_init d)) out' (Some q')
          = Some (True, last (vs @ ws), Some (of_nat (length vs + length ws)))
        \<and> (of_nat (length vs) :: u32) \<le> of_nat (length vs + length ws))"
proof -
  have step: "seq_ctr r \<noteq> - 1 \<longrightarrow> seq_ctr r < seq_ctr (DBReg_write v r)"
    by (simp add: write_seq_ctr u32_inc_less)
  have reads: "vs \<noteq> [] \<and> length vs + length ws < 2 ^ 32 \<longrightarrow>
        DBReg_read (DBReg_writes vs (DBReg_init d)) out (Some q)
          = Some (True, last vs, Some (of_nat (length vs)))
        \<and> DBReg_read (DBReg_writes (vs @ ws) (DBReg_init d)) out' (Some q')
          = Some (True, last (vs @ ws), Some (of_nat (length vs + length ws)))
        \<and> (of_nat (length vs) :: u32) \<le> of_nat (length vs + length ws)"
  proof
    assume h: "vs \<noteq> [] \<and> length vs + length ws < 2 ^ 32"
    then have ne: "vs \<noteq> []" and ne': "vs @ ws \<noteq> []"
      and bound: "length vs + length ws < 2 ^ 32"
      by simp_all
    have a: "DBReg_read (DBReg_writes vs (DBReg_init d)) out (Some q)
          = Some (True, last vs, Some (of_nat (length vs)))"
      using read_after_writes [OF ne, of d out "Some q"] by simp
    have b: "DBReg_read (DBReg_writes (vs @ ws) (DBReg_init d)) out' (Some q')
          = Some (True, last (vs @ ws), Some (of_nat (length vs + length ws)))"
      using read_after_writes [OF ne', of d out' "Some q'"] by simp
    have c: "(of_nat (length vs) :: u32) \<le> of_nat (length vs + length ws)"
      by (rule u32_of_nat_le [OF _ bound]) simp
    from a b c show "DBReg_read (DBReg_writes vs (DBReg_init d)) out (Some q)
          = Some (True, last vs, Some (of_nat (length vs)))
        \<and> DBReg_read (DBReg_writes (vs @ ws) (DBReg_init d)) out' (Some q')
          = Some (True, last (vs @ ws), Some (of_nat (length vs + length ws)))
        \<and> (of_nat (length vs) :: u32) \<le> of_nat (length vs + length ws)"
      by (intro conjI)
  qed
  show ?thesis
    by (rule conjI [OF write_seq_ctr conjI [OF step reads]])
qed

lemma sequence_monotone_below_wrap_example:
  "seq_ctr (DBReg_init (0::nat)) \<noteq> - 1
   \<and> seq_ctr (DBReg_init (0::nat)) < seq_ctr (DBReg_write 4 (DBReg_init (0::nat)))
   \<and> [1::nat] \<noteq> [] \<and> length [1::nat] + length [2, 3::nat] < 2 ^ 32
   \<and> DBReg_read (DBReg_writes [1::nat] (DBReg_init 0)) 0 (Some 0) = Some (True, 1, Some 1)
   \<and> DBReg_read (DBReg_writes ([1::nat] @ [2, 3]) (DBReg_init 0)) 0 (Some 0)
       = Some (True, 3, Some 3)
   \<and> (1::u32) \<le> 3"
  using sequence_monotone_below_wrap
    [of 4 "DBReg_init (0::nat)" "[1::nat]" "[2, 3]" 0 0 0 0 0]
  by (simp add: init_fields write_seq_ctr)

section \<open>Properties of CmdReg\<close>

lemma consume_post: "consume (post v c) out = (True, v, \<lparr>val = v, ready = False, \<dots> = CmdReg.more c\<rparr>)"
  by (simp add: consume_def post_def)

text \<open>
  C2. For every \<open>v\<close>, after \<open>post(v)\<close> the first \<open>consume(out)\<close> returns true with
  \<open>out = v\<close> and leaves the register not pending; a second \<open>consume\<close> straight after
  returns false; and whenever \<open>consume\<close> returns false, \<open>out\<close> (and the register) are
  as they were.
\<close>

theorem post_consume_one_shot:
  "fst (consume (post v c) out) = True
   \<and> fst (snd (consume (post v c) out)) = v
   \<and> \<not> pending (snd (snd (consume (post v c) out)))
   \<and> consume (snd (snd (consume (post v c) out))) out2
       = (False, out2, snd (snd (consume (post v c) out)))
   \<and> (fst (consume c' out3) = False \<longrightarrow> consume c' out3 = (False, out3, c'))"
  by (simp add: consume_def post_def pending_def)

theorem post_consume_one_shot_witness:
  "consume (post (42::int) (CmdReg_init 0)) 0 = (True, 42, \<lparr>val = 42, ready = False\<rparr>)
   \<and> consume \<lparr>val = 42::int, ready = False\<rparr> 7 = (False, 7, \<lparr>val = 42, ready = False\<rparr>)
   \<and> fst (consume (CmdReg_init (0::int)) 5) = False
   \<and> consume (CmdReg_init (0::int)) 5 = (False, 5, CmdReg_init 0)"
  using post_consume_one_shot [of "42::int" "CmdReg_init 0" 0 7 "CmdReg_init 0" 5]
  by (simp add: consume_def post_def CmdReg_init_def)

text \<open>
  C7. For every \<open>v1\<close> and \<open>v2\<close>, \<open>post(v1)\<close> then \<open>post(v2)\<close> with no \<open>consume\<close> in
  between leaves the register pending with the stored value \<open>v2\<close>; the next \<open>consume\<close>
  returns true with \<open>v2\<close>; and the register is the very one that \<open>post(v2)\<close> alone would
  have left, so nothing of \<open>v1\<close> remains to be observed.
\<close>

theorem second_post_overwrites:
  "pending (post v2 (post v1 c))
   \<and> val (post v2 (post v1 c)) = v2
   \<and> fst (consume (post v2 (post v1 c)) out) = True
   \<and> fst (snd (consume (post v2 (post v1 c)) out)) = v2
   \<and> post v2 (post v1 c) = post v2 c"
  by (simp add: consume_def post_def pending_def)

section \<open>Properties of Registry\<close>

lemma index_of_SomeD: "index_of k keys = Some i \<Longrightarrow> i < length keys \<and> keys ! i = k"
  by (induction keys arbitrary: i) (auto split: if_splits)

lemma index_of_mem: "k \<in> set keys \<Longrightarrow> \<exists>i. index_of k keys = Some i"
  by (induction keys) auto

lemma index_of_distinct:
  "index_of k1 keys = Some i \<Longrightarrow> index_of k2 keys = Some j \<Longrightarrow> k1 \<noteq> k2 \<Longrightarrow> i \<noteq> j"
  by (auto dest: index_of_SomeD)

lemma Registry_wf_length: "Registry_wf traits keys st \<Longrightarrow> length st = length keys"
  by (simp add: Registry_wf_def list_all2_lengthD)

lemma Registry_wf_nth:
  "Registry_wf traits keys st \<Longrightarrow> i < length keys \<Longrightarrow>
   (case st ! i of DBRegS r \<Rightarrow> traits (keys ! i) = Data | CmdRegS c \<Rightarrow> traits (keys ! i) = Cmd)"
  by (simp add: Registry_wf_def list_all2_conv_all_nth)

lemma Registry_wf_init: "Registry_wf traits keys (Registry_init traits dflt keys)"
proof -
  have "list_all2 (\<lambda>k s. case s of DBRegS r \<Rightarrow> traits k = Data | CmdRegS c \<Rightarrow> traits k = Cmd)
          keys (map (storage_for traits dflt) keys)"
  proof (induction keys)
    case Nil
    show ?case by simp
  next
    case (Cons k ks)
    then show ?case
      by (cases "traits k") (simp_all add: storage_for_def)
  qed
  then show ?thesis
    by (simp add: Registry_wf_def Registry_init_def)
qed

lemma Registry_wf_update:
  "Registry_wf traits keys st \<Longrightarrow> i < length keys \<Longrightarrow>
   (case s of DBRegS r \<Rightarrow> traits (keys ! i) = Data | CmdRegS c \<Rightarrow> traits (keys ! i) = Cmd) \<Longrightarrow>
   Registry_wf traits keys (st[i := s])"
  by (simp add: Registry_wf_def list_all2_conv_all_nth nth_list_update)

lemma get_update_same:
  "index_of k keys = Some i \<Longrightarrow> i < length st \<Longrightarrow> get keys k (st[i := s]) = Some s"
  by (simp add: get_def)

lemma get_update_other:
  "index_of k1 keys = Some i \<Longrightarrow> k1 \<noteq> k2 \<Longrightarrow> get keys k2 (st[i := s]) = get keys k2 st"
  by (auto simp: get_def split: option.splits dest: index_of_distinct)

lemma Registry_view_cong:
  assumes "get keys k st' = get keys k st"
  shows "Registry_view traits keys k out sq st' = Registry_view traits keys k out sq st"
proof (cases "index_of k keys")
  case None
  then show ?thesis
    by (simp add: Registry_view_def Registry_read_def Registry_has_def Registry_consume_def
          get_def)
next
  case (Some j)
  with assms have "st' ! j = st ! j"
    by (simp add: get_def)
  with Some show ?thesis
    by (simp add: Registry_view_def Registry_read_def Registry_has_def Registry_consume_def
          get_def split: storage.splits prod.splits)
qed

lemma Registry_read_forwards:
  "traits k = Data \<Longrightarrow> get keys k st = Some (DBRegS r) \<Longrightarrow>
   Registry_read traits keys k st out sq = Some (DBReg_read r out sq)
   \<and> Registry_has traits keys k st = Some (DBReg_has r)"
  by (simp add: Registry_read_def Registry_has_def)

lemma Registry_write_frame:
  assumes wf: "Registry_wf traits keys st" and mem: "k1 \<in> set keys"
    and kind: "traits k1 = Data"
  shows "\<exists>r st'. Registry_write traits keys k1 v st = Some st'
           \<and> get keys k1 st = Some (DBRegS r)
           \<and> get keys k1 st' = Some (DBRegS (DBReg_write v r))
           \<and> Registry_read traits keys k1 st out sq = Some (DBReg_read r out sq)
           \<and> Registry_has traits keys k1 st = Some (DBReg_has r)
           \<and> Registry_read traits keys k1 st' out sq = Some (DBReg_read (DBReg_write v r) out sq)
           \<and> Registry_has traits keys k1 st' = Some (DBReg_has (DBReg_write v r))
           \<and> Registry_wf traits keys st'
           \<and> (k1 \<noteq> k2 \<longrightarrow>
                get keys k2 st' = get keys k2 st
                \<and> Registry_view traits keys k2 out2 sq2 st'
                    = Registry_view traits keys k2 out2 sq2 st)"
proof -
  from mem obtain i where i: "index_of k1 keys = Some i"
    using index_of_mem by fastforce
  then have lt: "i < length keys" and at: "keys ! i = k1"
    using index_of_SomeD by fastforce+
  from Registry_wf_nth [OF wf lt] at kind obtain r where r: "st ! i = DBRegS r"
    by (cases "st ! i") simp_all
  let ?st' = "st[i := DBRegS (DBReg_write v r)]"
  have w: "Registry_write traits keys k1 v st = Some ?st'"
    by (simp add: Registry_write_def kind i r)
  have g: "get keys k1 st = Some (DBRegS r)"
    by (simp add: get_def i r)
  have g': "get keys k1 ?st' = Some (DBRegS (DBReg_write v r))"
    using lt Registry_wf_length [OF wf] by (simp add: get_update_same [OF i])
  note fw = Registry_read_forwards
      [where traits = traits and k = k1 and out = out and sq = sq, OF kind g]
  note fw' = Registry_read_forwards
      [where traits = traits and k = k1 and out = out and sq = sq, OF kind g']
  have wf': "Registry_wf traits keys ?st'"
    by (rule Registry_wf_update [OF wf lt]) (simp add: at kind)
  have fr: "k1 \<noteq> k2 \<longrightarrow>
        get keys k2 ?st' = get keys k2 st
        \<and> Registry_view traits keys k2 out2 sq2 ?st' = Registry_view traits keys k2 out2 sq2 st"
  proof
    assume ne: "k1 \<noteq> k2"
    have f: "get keys k2 ?st' = get keys k2 st"
      by (rule get_update_other [OF i ne])
    with Registry_view_cong [OF f]
    show "get keys k2 ?st' = get keys k2 st
        \<and> Registry_view traits keys k2 out2 sq2 ?st' = Registry_view traits keys k2 out2 sq2 st"
      by simp
  qed
  from w g g' fw fw' wf' fr show ?thesis
    by blast
qed

lemma Registry_post_frame:
  assumes wf: "Registry_wf traits keys st" and mem: "k1 \<in> set keys"
    and kind: "traits k1 = Cmd"
  shows "\<exists>c st'. Registry_post traits keys k1 v st = Some st'
           \<and> get keys k1 st = Some (CmdRegS c)
           \<and> get keys k1 st' = Some (CmdRegS (post v c))
           \<and> Registry_wf traits keys st'
           \<and> (k1 \<noteq> k2 \<longrightarrow>
                get keys k2 st' = get keys k2 st
                \<and> Registry_view traits keys k2 out2 sq2 st'
                    = Registry_view traits keys k2 out2 sq2 st)"
proof -
  from mem obtain i where i: "index_of k1 keys = Some i"
    using index_of_mem by fastforce
  then have lt: "i < length keys" and at: "keys ! i = k1"
    using index_of_SomeD by fastforce+
  from Registry_wf_nth [OF wf lt] at kind obtain c where c: "st ! i = CmdRegS c"
    by (cases "st ! i") simp_all
  let ?st' = "st[i := CmdRegS (post v c)]"
  have w: "Registry_post traits keys k1 v st = Some ?st'"
    by (simp add: Registry_post_def kind i c)
  have g: "get keys k1 st = Some (CmdRegS c)"
    by (simp add: get_def i c)
  have g': "get keys k1 ?st' = Some (CmdRegS (post v c))"
    using lt Registry_wf_length [OF wf] by (simp add: get_update_same [OF i])
  have wf': "Registry_wf traits keys ?st'"
    by (rule Registry_wf_update [OF wf lt]) (simp add: at kind)
  have fr: "k1 \<noteq> k2 \<longrightarrow>
        get keys k2 ?st' = get keys k2 st
        \<and> Registry_view traits keys k2 out2 sq2 ?st' = Registry_view traits keys k2 out2 sq2 st"
  proof
    assume ne: "k1 \<noteq> k2"
    have f: "get keys k2 ?st' = get keys k2 st"
      by (rule get_update_other [OF i ne])
    with Registry_view_cong [OF f]
    show "get keys k2 ?st' = get keys k2 st
        \<and> Registry_view traits keys k2 out2 sq2 ?st' = Registry_view traits keys k2 out2 sq2 st"
      by simp
  qed
  from w g g' wf' fr show ?thesis
    by blast
qed

lemma Registry_consume_frame:
  assumes wf: "Registry_wf traits keys st" and mem: "k1 \<in> set keys"
    and kind: "traits k1 = Cmd"
  shows "\<exists>c st'. Registry_consume traits keys k1 cout st
               = Some (fst (consume c cout), fst (snd (consume c cout)), st')
           \<and> get keys k1 st = Some (CmdRegS c)
           \<and> get keys k1 st' = Some (CmdRegS (snd (snd (consume c cout))))
           \<and> Registry_wf traits keys st'
           \<and> (k1 \<noteq> k2 \<longrightarrow>
                get keys k2 st' = get keys k2 st
                \<and> Registry_view traits keys k2 out2 sq2 st'
                    = Registry_view traits keys k2 out2 sq2 st)"
proof -
  from mem obtain i where i: "index_of k1 keys = Some i"
    using index_of_mem by fastforce
  then have lt: "i < length keys" and at: "keys ! i = k1"
    using index_of_SomeD by fastforce+
  from Registry_wf_nth [OF wf lt] at kind obtain c where c: "st ! i = CmdRegS c"
    by (cases "st ! i") simp_all
  let ?st' = "st[i := CmdRegS (snd (snd (consume c cout)))]"
  have w: "Registry_consume traits keys k1 cout st
             = Some (fst (consume c cout), fst (snd (consume c cout)), ?st')"
    by (simp add: Registry_consume_def kind i c split: prod.splits)
  have g: "get keys k1 st = Some (CmdRegS c)"
    by (simp add: get_def i c)
  have g': "get keys k1 ?st' = Some (CmdRegS (snd (snd (consume c cout))))"
    using lt Registry_wf_length [OF wf] by (simp add: get_update_same [OF i])
  have wf': "Registry_wf traits keys ?st'"
    by (rule Registry_wf_update [OF wf lt]) (simp add: at kind)
  have fr: "k1 \<noteq> k2 \<longrightarrow>
        get keys k2 ?st' = get keys k2 st
        \<and> Registry_view traits keys k2 out2 sq2 ?st' = Registry_view traits keys k2 out2 sq2 st"
  proof
    assume ne: "k1 \<noteq> k2"
    have f: "get keys k2 ?st' = get keys k2 st"
      by (rule get_update_other [OF i ne])
    with Registry_view_cong [OF f]
    show "get keys k2 ?st' = get keys k2 st
        \<and> Registry_view traits keys k2 out2 sq2 ?st' = Registry_view traits keys k2 out2 sq2 st"
      by simp
  qed
  from w g g' wf' fr show ?thesis
    by blast
qed

text \<open>
  C8. In a registry whose tuple has one register of the right type per key, let \<open>k1\<close>
  be a declared key. Every operation on \<open>k1\<close> compiles for the key's kind and forwards
  to the register that \<open>get\<close> returns for \<open>k1\<close>: for a Data key, \<open>read\<close> and \<open>has\<close>
  return what \<open>DBReg::read\<close> and \<open>DBReg::has\<close> return on that register, before and
  after a \<open>write\<close>, and \<open>write\<close> replaces it by the result of \<open>DBReg::write\<close>; for a
  Cmd key, \<open>post\<close> and \<open>consume\<close> act on it as \<open>CmdReg::post\<close> and
  \<open>CmdReg::consume\<close> do. For every key \<open>k2\<close> other than \<open>k1\<close>, the \<open>write\<close>, \<open>post\<close>
  or \<open>consume\<close> on \<open>k1\<close> leaves the register of \<open>k2\<close> as it was, and \<open>read\<close>, \<open>has\<close>
  and \<open>consume\<close> on \<open>k2\<close> return afterwards what they would have returned before.
\<close>

theorem registry_keys_independent:
  assumes "Registry_wf traits keys st" and "k1 \<in> set keys"
  shows
    "(traits k1 = Data \<longrightarrow>
        (\<exists>r st'. Registry_write traits keys k1 v st = Some st'
           \<and> get keys k1 st = Some (DBRegS r)
           \<and> get keys k1 st' = Some (DBRegS (DBReg_write v r))
           \<and> Registry_read traits keys k1 st out sq = Some (DBReg_read r out sq)
           \<and> Registry_has traits keys k1 st = Some (DBReg_has r)
           \<and> Registry_read traits keys k1 st' out sq = Some (DBReg_read (DBReg_write v r) out sq)
           \<and> Registry_has traits keys k1 st' = Some (DBReg_has (DBReg_write v r))
           \<and> Registry_wf traits keys st'
           \<and> (k1 \<noteq> k2 \<longrightarrow>
                get keys k2 st' = get keys k2 st
                \<and> Registry_view traits keys k2 out2 sq2 st'
                    = Registry_view traits keys k2 out2 sq2 st)))
     \<and> (traits k1 = Cmd \<longrightarrow>
        (\<exists>c st'. Registry_post traits keys k1 v st = Some st'
           \<and> get keys k1 st = Some (CmdRegS c)
           \<and> get keys k1 st' = Some (CmdRegS (post v c))
           \<and> Registry_wf traits keys st'
           \<and> (k1 \<noteq> k2 \<longrightarrow>
                get keys k2 st' = get keys k2 st
                \<and> Registry_view traits keys k2 out2 sq2 st'
                    = Registry_view traits keys k2 out2 sq2 st)))
     \<and> (traits k1 = Cmd \<longrightarrow>
        (\<exists>c st'. Registry_consume traits keys k1 cout st
               = Some (fst (consume c cout), fst (snd (consume c cout)), st')
           \<and> get keys k1 st = Some (CmdRegS c)
           \<and> get keys k1 st' = Some (CmdRegS (snd (snd (consume c cout))))
           \<and> Registry_wf traits keys st'
           \<and> (k1 \<noteq> k2 \<longrightarrow>
                get keys k2 st' = get keys k2 st
                \<and> Registry_view traits keys k2 out2 sq2 st'
                    = Registry_view traits keys k2 out2 sq2 st)))"
proof (intro conjI)
  show "traits k1 = Data \<longrightarrow>
        (\<exists>r st'. Registry_write traits keys k1 v st = Some st'
           \<and> get keys k1 st = Some (DBRegS r)
           \<and> get keys k1 st' = Some (DBRegS (DBReg_write v r))
           \<and> Registry_read traits keys k1 st out sq = Some (DBReg_read r out sq)
           \<and> Registry_has traits keys k1 st = Some (DBReg_has r)
           \<and> Registry_read traits keys k1 st' out sq = Some (DBReg_read (DBReg_write v r) out sq)
           \<and> Registry_has traits keys k1 st' = Some (DBReg_has (DBReg_write v r))
           \<and> Registry_wf traits keys st'
           \<and> (k1 \<noteq> k2 \<longrightarrow>
                get keys k2 st' = get keys k2 st
                \<and> Registry_view traits keys k2 out2 sq2 st'
                    = Registry_view traits keys k2 out2 sq2 st))"
    using Registry_write_frame [OF assms] by (rule impI)
  show "traits k1 = Cmd \<longrightarrow>
        (\<exists>c st'. Registry_post traits keys k1 v st = Some st'
           \<and> get keys k1 st = Some (CmdRegS c)
           \<and> get keys k1 st' = Some (CmdRegS (post v c))
           \<and> Registry_wf traits keys st'
           \<and> (k1 \<noteq> k2 \<longrightarrow>
                get keys k2 st' = get keys k2 st
                \<and> Registry_view traits keys k2 out2 sq2 st'
                    = Registry_view traits keys k2 out2 sq2 st))"
    using Registry_post_frame [OF assms] by (rule impI)
  show "traits k1 = Cmd \<longrightarrow>
        (\<exists>c st'. Registry_consume traits keys k1 cout st
               = Some (fst (consume c cout), fst (snd (consume c cout)), st')
           \<and> get keys k1 st = Some (CmdRegS c)
           \<and> get keys k1 st' = Some (CmdRegS (snd (snd (consume c cout))))
           \<and> Registry_wf traits keys st'
           \<and> (k1 \<noteq> k2 \<longrightarrow>
                get keys k2 st' = get keys k2 st
                \<and> Registry_view traits keys k2 out2 sq2 st'
                    = Registry_view traits keys k2 out2 sq2 st))"
    using Registry_consume_frame [OF assms] by (rule impI)
qed

lemma R_used_reached:
  "Registry_write Traits R_keys A 123 R_init
     = Some [DBRegS (DBReg_write 123 (DBReg_init 0)), DBRegS (DBReg_init 0),
             CmdRegS (CmdReg_init 0)]
   \<and> Registry_write Traits R_keys B (5::int)
         [DBRegS (DBReg_write 123 (DBReg_init 0)), DBRegS (DBReg_init 0), CmdRegS (CmdReg_init 0)]
     = Some [DBRegS (DBReg_write 123 (DBReg_init 0)), DBRegS (DBReg_write 5 (DBReg_init 0)),
             CmdRegS (CmdReg_init 0)]
   \<and> Registry_post Traits R_keys CMD_GO 1
         [DBRegS (DBReg_write 123 (DBReg_init 0)), DBRegS (DBReg_write 5 (DBReg_init 0)),
          CmdRegS (CmdReg_init 0)]
     = Some R_used"
  by (simp add: R_init_def R_used_def R_keys_def R_zero_def Registry_init_def storage_for_def
        Registry_write_def Registry_post_def)

theorem registry_keys_independent_witness:
  "Registry_wf Traits R_keys R_used
   \<and> A \<in> set R_keys \<and> CMD_GO \<in> set R_keys
   \<and> Traits A = Data \<and> Traits CMD_GO = Cmd \<and> A \<noteq> B \<and> CMD_GO \<noteq> A
   \<and> Registry_read Traits R_keys A R_used 0 (Some 0) = Some (Some (True, 123, Some 1))
   \<and> Registry_has Traits R_keys A R_used = Some True
   \<and> Registry_write Traits R_keys A 9 R_used
       = Some [DBRegS (DBReg_write (9::int) (DBReg_write 123 (DBReg_init 0))),
               DBRegS (DBReg_write 5 (DBReg_init 0)),
               CmdRegS (post 1 (CmdReg_init 0))]
   \<and> Registry_read Traits R_keys A
         [DBRegS (DBReg_write (9::int) (DBReg_write 123 (DBReg_init 0))),
          DBRegS (DBReg_write 5 (DBReg_init 0)),
          CmdRegS (post 1 (CmdReg_init 0))] 0 (Some 0)
       = Some (Some (True, 9, Some 2))
   \<and> Registry_view Traits R_keys B 0 (Some 0) R_used
       = (Some (Some (True, 5, Some 1)), Some True, None)
   \<and> Registry_view Traits R_keys B 0 (Some 0)
         [DBRegS (DBReg_write (9::int) (DBReg_write 123 (DBReg_init 0))),
          DBRegS (DBReg_write 5 (DBReg_init 0)),
          CmdRegS (post 1 (CmdReg_init 0))]
       = (Some (Some (True, 5, Some 1)), Some True, None)
   \<and> Registry_consume Traits R_keys CMD_GO 0 R_used
       = Some (True, 1,
               [DBRegS (DBReg_write (123::int) (DBReg_init 0)),
                DBRegS (DBReg_write 5 (DBReg_init 0)),
                CmdRegS \<lparr>val = 1, ready = False\<rparr>])
   \<and> Registry_view Traits R_keys A 0 (Some 0) R_used
       = (Some (Some (True, 123, Some 1)), Some True, None)
   \<and> Registry_view Traits R_keys A 0 (Some 0)
         [DBRegS (DBReg_write (123::int) (DBReg_init 0)),
          DBRegS (DBReg_write 5 (DBReg_init 0)),
          CmdRegS \<lparr>val = 1, ready = False\<rparr>]
       = (Some (Some (True, 123, Some 1)), Some True, None)
   \<and> Registry_post Traits R_keys CMD_GO 2 R_used
       = Some [DBRegS (DBReg_write (123::int) (DBReg_init 0)),
               DBRegS (DBReg_write 5 (DBReg_init 0)),
               CmdRegS (post 2 (post 1 (CmdReg_init 0)))]"
proof -
  have wf: "Registry_wf Traits R_keys R_used"
    by (simp add: Registry_wf_def R_used_def R_keys_def)
  have m1: "A \<in> set R_keys" and m2: "CMD_GO \<in> set R_keys"
    by (simp_all add: R_keys_def)
  note data = registry_keys_independent [OF wf m1, where v = 9 and ?k2.0 = B
      and out = 0 and sq = "Some 0" and ?out2.0 = 0 and ?sq2.0 = "Some 0"]
  note cmd1 = registry_keys_independent [OF wf m2, where v = 2 and cout = 0 and ?k2.0 = A
      and ?out2.0 = 0 and ?sq2.0 = "Some 0"]
  have d: "Registry_read Traits R_keys A R_used 0 (Some 0) = Some (Some (True, 123, Some 1))
     \<and> Registry_has Traits R_keys A R_used = Some True
     \<and> Registry_write Traits R_keys A 9 R_used
       = Some [DBRegS (DBReg_write (9::int) (DBReg_write 123 (DBReg_init 0))),
               DBRegS (DBReg_write 5 (DBReg_init 0)),
               CmdRegS (post 1 (CmdReg_init 0))]
     \<and> Registry_read Traits R_keys A
         [DBRegS (DBReg_write (9::int) (DBReg_write 123 (DBReg_init 0))),
          DBRegS (DBReg_write 5 (DBReg_init 0)),
          CmdRegS (post 1 (CmdReg_init 0))] 0 (Some 0)
       = Some (Some (True, 9, Some 2))
     \<and> Registry_view Traits R_keys B 0 (Some 0) R_used
       = (Some (Some (True, 5, Some 1)), Some True, None)
     \<and> Registry_view Traits R_keys B 0 (Some 0)
         [DBRegS (DBReg_write (9::int) (DBReg_write 123 (DBReg_init 0))),
          DBRegS (DBReg_write 5 (DBReg_init 0)),
          CmdRegS (post 1 (CmdReg_init 0))]
       = (Some (Some (True, 5, Some 1)), Some True, None)"
    using data
    by (simp add: R_used_def R_keys_def get_def Registry_write_def Registry_read_def
          Registry_has_def Registry_view_def Registry_consume_def DBReg_read_eq DBReg_has_def
          DBReg_write_def DBReg_init_def Let_def)
  have c: "Registry_consume Traits R_keys CMD_GO 0 R_used
       = Some (True, 1,
               [DBRegS (DBReg_write (123::int) (DBReg_init 0)),
                DBRegS (DBReg_write 5 (DBReg_init 0)),
                CmdRegS \<lparr>val = 1, ready = False\<rparr>])
     \<and> Registry_view Traits R_keys A 0 (Some 0) R_used
       = (Some (Some (True, 123, Some 1)), Some True, None)
     \<and> Registry_view Traits R_keys A 0 (Some 0)
         [DBRegS (DBReg_write (123::int) (DBReg_init 0)),
          DBRegS (DBReg_write 5 (DBReg_init 0)),
          CmdRegS \<lparr>val = 1, ready = False\<rparr>]
       = (Some (Some (True, 123, Some 1)), Some True, None)
     \<and> Registry_post Traits R_keys CMD_GO 2 R_used
       = Some [DBRegS (DBReg_write (123::int) (DBReg_init 0)),
               DBRegS (DBReg_write 5 (DBReg_init 0)),
               CmdRegS (post 2 (post 1 (CmdReg_init 0)))]"
    using cmd1
    by (simp add: R_used_def R_keys_def get_def Registry_post_def Registry_read_def
          Registry_has_def Registry_view_def Registry_consume_def DBReg_read_eq DBReg_has_def
          DBReg_write_def DBReg_init_def Let_def consume_def post_def CmdReg_init_def)
  from wf m1 m2 d c show ?thesis
    by simp
qed

section \<open>Threads interleaved\<close>

lemma run_append: "run (xs @ ys) s = run ys (run xs s)"
  by (simp add: run_def)

lemma replicate_3: "replicate 3 x = [x, x, x]"
  by (simp add: numeral_eq_Suc)

lemma replicate_4: "replicate 4 x = [x, x, x, x]"
  by (simp add: numeral_eq_Suc)

lemma replicate_7: "replicate 7 x = [x, x, x, x, x, x, x]"
  by (simp add: numeral_eq_Suc)

lemma S_two_copies: "(x\<lparr>S_a := S_a v\<rparr>)\<lparr>S_b := S_b v\<rparr> = (v::S)"
  by simp

lemma buf_two_copies:
  "(bs::S list)[n := ((bs[n := (bs ! n)\<lparr>S_a := S_a v\<rparr>]) ! n)\<lparr>S_b := S_b v\<rparr>] = bs[n := v]"
  by (cases "n < length bs") (simp_all add: S_two_copies list_update_beyond)

lemma writer_all_fields: "(w::writer)\<lparr>w_pc := p, w_todo := t\<rparr> = \<lparr>w_pc = p, w_todo = t\<rparr>"
  by (cases w) simp

text \<open>
  The seven steps of a call of \<open>write(v)\<close>, taken by one writer with no step of any
  other thread in between, change the register as \<open>DBReg_write v\<close> does.
\<close>

lemma run_write:
  assumes "i < length (writers s)" and "w_pc (writers s ! i) = W_load_idx"
    and "w_todo (writers s ! i) = v # vs"
  shows "run (replicate 7 (Writer i)) s
           = s\<lparr>reg := DBReg_write v (reg s),
                writers := (writers s)[i := \<lparr>w_pc = W_load_idx, w_todo = vs\<rparr>]\<rparr>"
  using assms
  by (simp add: replicate_7 run_def step_def writer_step_def DBReg_write_def Let_def
        buf_two_copies writer_all_fields)

lemma run_writes:
  assumes "i < length (writers s)" and "w_pc (writers s ! i) = W_load_idx"
    and "w_todo (writers s ! i) = vs @ rest"
  shows "run (replicate (7 * length vs) (Writer i)) s
           = s\<lparr>reg := DBReg_writes vs (reg s),
                writers := (writers s)[i := \<lparr>w_pc = W_load_idx, w_todo = rest\<rparr>]\<rparr>"
  using assms
proof (induction vs arbitrary: s)
  case Nil
  then have "writers s ! i = \<lparr>w_pc = W_load_idx, w_todo = rest\<rparr>"
    by (cases "writers s ! i") simp
  then have "(writers s)[i := \<lparr>w_pc = W_load_idx, w_todo = rest\<rparr>] = writers s"
    using list_update_id [of "writers s" i] by simp
  then show ?case
    by (simp add: run_def DBReg_writes_def)
next
  case (Cons v vs)
  let ?s1 = "s\<lparr>reg := DBReg_write v (reg s),
                writers := (writers s)[i := \<lparr>w_pc = W_load_idx, w_todo = vs @ rest\<rparr>]\<rparr>"
  have one: "run (replicate 7 (Writer i)) s = ?s1"
    using Cons.prems by (simp add: run_write)
  have split: "replicate (7 * length (v # vs)) (Writer i)
         = replicate 7 (Writer i) @ replicate (7 * length vs) (Writer i)"
    by (simp add: replicate_add [symmetric])
  have rest: "run (replicate (7 * length vs) (Writer i)) ?s1
         = ?s1\<lparr>reg := DBReg_writes vs (reg ?s1),
                writers := (writers ?s1)[i := \<lparr>w_pc = W_load_idx, w_todo = rest\<rparr>]\<rparr>"
    using Cons.prems by (intro Cons.IH) simp_all
  show ?case
    by (simp only: split run_append one rest) (simp add: DBReg_writes_def)
qed

text \<open>
  The seven steps of a call of \<open>read\<close> on a written register, with no step of any
  other thread in between, log what \<open>DBReg_read\<close> returns; on a register never written
  the single step of the call logs \<open>false\<close> and the untouched \<open>S{}\<close> and 0.
\<close>

lemma run_read:
  assumes "r_pc (rd s) = R_load_has" and "has (reg s)"
  shows "run (replicate 7 Reader) s
           = s\<lparr>rd := \<lparr>r_pc = R_load_has,
                        r_log = (True, buf (reg s) ! unat (idx (reg s)),
                                 seq (reg s) ! unat (idx (reg s))) # r_log (rd s)\<rparr>\<rparr>
         \<and> DBReg_read (reg s) \<lparr>S_a = 0, S_b = 0\<rparr> (Some 0)
           = Some (True, buf (reg s) ! unat (idx (reg s)),
                   Some (seq (reg s) ! unat (idx (reg s))))"
  using assms
  by (cases "rd s") (simp add: replicate_7 run_def step_def reader_step_def DBReg_read_eq)

lemma run_read_unwritten:
  assumes "r_pc (rd s) = R_load_has" and "\<not> has (reg s)"
  shows "run [Reader] s
           = s\<lparr>rd := \<lparr>r_pc = R_load_has,
                        r_log = (False, \<lparr>S_a = 0, S_b = 0\<rparr>, 0) # r_log (rd s)\<rparr>\<rparr>
         \<and> DBReg_read (reg s) \<lparr>S_a = 0, S_b = 0\<rparr> (Some 0)
           = Some (False, \<lparr>S_a = 0, S_b = 0\<rparr>, Some 0)"
  using assms
  by (cases "rd s") (simp add: run_def step_def reader_step_def DBReg_read_eq)

text \<open>
  C5. The claim: while one thread keeps writing values with \<open>b == ~a\<close> and another
  reads in a loop, every successful read returns a value with \<open>b == ~a\<close>; the tests
  assert it ("Torn read detected"). The code breaks it when the stamp of a slot comes
  round to the value the reader loaded. The writer writes \<open>(1, ~1)\<close>; the reader
  starts a read and gets as far as copying field \<open>a\<close> of the active slot (\<open>i1 = 1\<close>,
  \<open>s1 = 1\<close>, \<open>tmp.a = 1\<close>); the writer then makes \<open>2^32\<close> writes of \<open>(7, ~7)\<close>, after
  which the active slot is slot 1 again and its stamp is 1 again; the reader copies
  field \<open>b\<close>, finds \<open>idx_\<close> and the stamp as it loaded them, and returns true with
  \<open>(1, ~7)\<close>, half of one write and half of another.
\<close>

theorem torn_read_at_wrap:
  "coherent \<lparr>S_a = 1, S_b = NOT 1\<rparr> \<and> coherent \<lparr>S_a = 7, S_b = NOT 7\<rparr>
   \<and> r_log (rd (run (replicate 7 (Writer 0) @ replicate 4 Reader
                      @ replicate (7 * 4294967296) (Writer 0) @ replicate 3 Reader)
                 (sys_init [\<lparr>S_a = 1, S_b = NOT 1\<rparr>
                            # replicate 4294967296 \<lparr>S_a = 7, S_b = NOT 7\<rparr>])))
       = [(True, \<lparr>S_a = 1, S_b = NOT 7\<rparr>, 1)]
   \<and> \<not> coherent \<lparr>S_a = 1, S_b = NOT 7\<rparr>"
proof -
  let ?v1 = "\<lparr>S_a = 1, S_b = NOT 1\<rparr> :: S"
  let ?v7 = "\<lparr>S_a = 7, S_b = NOT 7\<rparr> :: S"
  let ?vs = "replicate 4294967296 ?v7"
  let ?s0 = "sys_init [?v1 # ?vs]"
  let ?r1 = "DBReg_write ?v1 (DBReg_init \<lparr>S_a = 0, S_b = 0\<rparr>)"
  let ?s1 = "\<lparr>reg = ?r1, writers = [\<lparr>w_pc = W_load_idx, w_todo = ?vs\<rparr>],
              rd = \<lparr>r_pc = R_load_has, r_log = []\<rparr>\<rparr>"
  have a: "run (replicate 7 (Writer 0)) ?s0 = ?s1"
    by (simp add: run_write sys_init_def)
  let ?s2 = "?s1\<lparr>rd := \<lparr>r_pc = R_copy_b 1 1 1, r_log = []\<rparr>\<rparr>"
  have b: "run (replicate 4 Reader) ?s1 = ?s2"
    by (simp add: replicate_4 run_def step_def reader_step_def DBReg_write_def DBReg_init_def
          Let_def)
  let ?r3 = "DBReg_writes ?vs ?r1"
  let ?s3 = "?s2\<lparr>reg := ?r3, writers := [\<lparr>w_pc = W_load_idx, w_todo = []\<rparr>]\<rparr>"
  have len: "length ?vs = 4294967296"
    by simp
  have c: "run (replicate (7 * 4294967296) (Writer 0)) ?s2 = ?s3"
    using run_writes [of 0 ?s2 ?vs "[]"] by (simp only: len) simp
  have inv: "DBReg_inv ?r1"
    by (rule DBReg_inv_write [OF DBReg_inv_init])
  have ne: "?vs \<noteq> []"
    by simp
  have i3: "idx ?r3 = 1"
    by (simp add: writes_idx write_idx init_fields)
  have q3: "seq ?r3 ! unat (idx ?r3) = 1"
    using writes_active_stamp [OF inv ne] by (simp add: write_seq_ctr init_fields)
  have b3: "buf ?r3 ! unat (idx ?r3) = ?v7"
    using writes_active_value [OF inv ne] by simp
  have d: "r_log (rd (run (replicate 3 Reader) ?s3)) = [(True, \<lparr>S_a = 1, S_b = NOT 7\<rparr>, 1)]"
    using i3 q3 b3 by (simp add: replicate_3 run_def step_def reader_step_def)
  have e: "r_log (rd (run (replicate 7 (Writer 0) @ replicate 4 Reader
                      @ replicate (7 * 4294967296) (Writer 0) @ replicate 3 Reader) ?s0))
       = [(True, \<lparr>S_a = 1, S_b = NOT 7\<rparr>, 1)]"
    by (simp only: run_append a b c d)
  have f: "coherent ?v1 \<and> coherent ?v7 \<and> \<not> coherent \<lparr>S_a = 1, S_b = NOT 7\<rparr>"
    by (simp add: coherent_def)
  from e f show ?thesis
    by blast
qed

text \<open>
  With two writer threads the sequence numbers also go down far from the wrap: the
  first writer takes stamp 1 and is held before it stores it; the second writer makes a
  whole write with stamp 2, and a read returns sequence number 2; the first writer then
  stores its stamp 1 over the 2 and publishes, and the next read returns 1.
\<close>

lemma sequence_decreases_two_writers:
  "r_log (rd (run (replicate 4 (Writer 0) @ replicate 7 (Writer 1) @ replicate 7 Reader
                   @ replicate 3 (Writer 0) @ replicate 7 Reader)
                (sys_init [[\<lparr>S_a = 1, S_b = NOT 1\<rparr>], [\<lparr>S_a = 7, S_b = NOT 7\<rparr>]])))
     = [(True, \<lparr>S_a = 7, S_b = NOT 7\<rparr>, 1), (True, \<lparr>S_a = 7, S_b = NOT 7\<rparr>, 2)]"
  by (simp add: replicate_3 replicate_4 replicate_7 run_def step_def reader_step_def
        writer_step_def sys_init_def DBReg_init_def)

end
